theory Spec2Isabelle
  imports Main "HOL-Library.Word"
begin

unbundle bit_operations_syntax

section \<open>Characters and strings\<close>

text \<open>
  A Python \<open>str\<close> is modelled as a HOL \<open>string\<close>: the list of its characters, each
  an 8-bit \<open>char\<close> read as the Unicode code point of the same number (U+0000 to U+00FF).
  On that range the character classes below are the ones Python's \<open>re\<close> module uses for
  \<open>str\<close> patterns: \<open>\d\<close> is the Unicode decimal digits, \<open>\w\<close> the Unicode
  alphanumerics and the underscore, \<open>\s\<close> the Unicode white space.
\<close>

definition code :: "char \<Rightarrow> nat" where
  "code c = of_char c"

definition is_digit :: "char \<Rightarrow> bool" where
  "is_digit c = (48 \<le> code c \<and> code c \<le> 57)"

definition is_word :: "char \<Rightarrow> bool" where
  "is_word c =
     (let n = code c in
        (48 \<le> n \<and> n \<le> 57) \<or> (65 \<le> n \<and> n \<le> 90) \<or> n = 95 \<or> (97 \<le> n \<and> n \<le> 122) \<or>
        n = 170 \<or> n = 178 \<or> n = 179 \<or> n = 181 \<or> n = 185 \<or> n = 186 \<or>
        (188 \<le> n \<and> n \<le> 190) \<or> (192 \<le> n \<and> n \<le> 214) \<or> (216 \<le> n \<and> n \<le> 246) \<or>
        248 \<le> n)"

definition is_space :: "char \<Rightarrow> bool" where
  "is_space c =
     (let n = code c in (9 \<le> n \<and> n \<le> 13) \<or> (28 \<le> n \<and> n \<le> 32) \<or> n = 133 \<or> n = 160)"

section \<open>The part of Python's \<open>re\<close> the patterns use\<close>

text \<open>
  The seven detectors are built from character classes, literals, \<open>\b\<close>, concatenation,
  ordered alternation and counted repetition, greedy or lazy. A group only brackets:
  the replacement callbacks read \<open>m.group()\<close>, the whole match.
\<close>

datatype cset = Rng char char | Lit char | Digit | NonSpace

fun in_cset :: "cset \<Rightarrow> char \<Rightarrow> bool" where
  "in_cset (Rng a b) c = (code a \<le> code c \<and> code c \<le> code b)"
| "in_cset (Lit a) c = (c = a)"
| "in_cset Digit c = is_digit c"
| "in_cset NonSpace c = (\<not> is_space c)"

definition in_class :: "cset list \<Rightarrow> char \<Rightarrow> bool" where
  "in_class cs c = list_ex (\<lambda>s. in_cset s c) cs"

datatype rx =
    Eps
  | Atom "cset list"
  | WordB
  | Seq rx rx
  | Alt rx rx
  | Rep nat "nat option" bool rx

text \<open>
  \<open>Rep lo hi greedy r\<close> is \<open>r{lo,hi}\<close>, with \<open>hi = None\<close> for no upper bound and
  \<open>greedy = False\<close> for the lazy form \<open>r{lo,hi}?\<close>.

  A matcher takes the text that is left, \<open>x\<close>, and whether the character before it is a
  word character, \<open>w\<close> (\<open>False\<close> at the start of the string), and returns the numbers
  of characters each way of matching consumes, in the order in which the backtracking
  engine tries them. The first one is the match \<open>re\<close> reports.
\<close>

definition after :: "bool \<Rightarrow> string \<Rightarrow> nat \<Rightarrow> bool" where
  "after w x n = (if n = 0 then w else is_word (x ! (n - 1)))"

definition seq_ends ::
  "(bool \<Rightarrow> string \<Rightarrow> nat list) \<Rightarrow> (bool \<Rightarrow> string \<Rightarrow> nat list) \<Rightarrow> bool \<Rightarrow> string \<Rightarrow> nat list" where
  "seq_ends m1 m2 w x =
     concat (map (\<lambda>n. map (\<lambda>k. n + k) (m2 (after w x n) (drop n x))) (m1 w x))"

text \<open>
  Repetition: a greedy repetition first tries one more round of the body, then stopping;
  a lazy one the other way round. Every quantified body of the source's patterns
  consumes at least one character; a round that consumes nothing ends the repetition.
\<close>

function rep_ends ::
  "(bool \<Rightarrow> string \<Rightarrow> nat list) \<Rightarrow> nat \<Rightarrow> nat option \<Rightarrow> bool \<Rightarrow> bool \<Rightarrow> string \<Rightarrow> nat list" where
  "rep_ends m lo hi greedy w x =
     (let stop = (if lo = 0 then [0] else []);
          more = (if hi = Some 0 then []
                  else concat (map (\<lambda>n. if 0 < n \<and> n \<le> length x
                                         then map (\<lambda>k. n + k)
                                                (rep_ends m (lo - 1) (map_option (\<lambda>h. h - 1) hi) greedy
                                                   (after w x n) (drop n x))
                                         else [])
                               (m w x)))
      in if greedy then more @ stop else stop @ more)"
  by pat_completeness auto
termination
  by (relation "measure (\<lambda>(m, lo, hi, greedy, w, x). length x)") auto

declare rep_ends.simps [simp del]

primrec ends :: "rx \<Rightarrow> bool \<Rightarrow> string \<Rightarrow> nat list" where
  "ends Eps = (\<lambda>w x. [0])"
| "ends (Atom cs) = (\<lambda>w x. case x of [] \<Rightarrow> [] | c # _ \<Rightarrow> if in_class cs c then [1] else [])"
| "ends WordB = (\<lambda>w x. if w \<noteq> (case x of [] \<Rightarrow> False | c # _ \<Rightarrow> is_word c) then [0] else [])"
| "ends (Seq r1 r2) = seq_ends (ends r1) (ends r2)"
| "ends (Alt r1 r2) = (\<lambda>w x. ends r1 w x @ ends r2 w x)"
| "ends (Rep lo hi greedy r) = rep_ends (ends r) lo hi greedy"

definition match_at :: "rx \<Rightarrow> bool \<Rightarrow> string \<Rightarrow> nat option" where
  "match_at r w x = (case ends r w x of [] \<Rightarrow> None | n # _ \<Rightarrow> Some n)"

text \<open>
  \<open>pattern.sub(repl, s)\<close> with a callable \<open>repl\<close>: scan from the left, try a match at
  every position, replace the leftmost match by \<open>repl\<close> of its text and go on behind it.
  An empty match is replaced too and the scan moves on by one character (Python 3.7 and
  later); none of the source's patterns matches the empty string.
\<close>

function re_sub :: "rx \<Rightarrow> (string \<Rightarrow> string) \<Rightarrow> bool \<Rightarrow> string \<Rightarrow> string" where
  "re_sub r f w [] = (case match_at r w [] of None \<Rightarrow> [] | Some n \<Rightarrow> f [])"
| "re_sub r f w (c # x) =
     (case match_at r w (c # x) of
        None \<Rightarrow> c # re_sub r f (is_word c) x
      | Some n \<Rightarrow>
          if n = 0 \<or> length (c # x) < n then f [] @ c # re_sub r f (is_word c) x
          else f (take n (c # x)) @ re_sub r f (after w (c # x) n) (drop n (c # x)))"
  by pat_completeness auto
termination
  by (relation "measure (\<lambda>(r, f, w, x). length x)") auto

definition sub :: "rx \<Rightarrow> (string \<Rightarrow> string) \<Rightarrow> string \<Rightarrow> string" where
  "sub r f s = re_sub r f False s"



subsection \<open>The pattern library\<close>

fun cat :: "rx list \<Rightarrow> rx" where
  "cat [] = Eps"
| "cat [r] = r"
| "cat (r # rs) = Seq r (cat rs)"

definition lit :: "char \<Rightarrow> rx" where
  "lit c = Atom [Lit c]"

definition plus :: "rx \<Rightarrow> rx" where
  "plus r = Rep 1 None True r"

definition times :: "nat \<Rightarrow> rx \<Rightarrow> rx" where
  "times n r = Rep n (Some n) True r"

definition opt :: "rx \<Rightarrow> rx" where
  "opt r = Rep 0 (Some 1) True r"

definition digit :: rx where
  "digit = Atom [Digit]"

definition letter :: "cset list" where
  "letter = [Rng CHR ''A'' CHR ''Z'', Rng CHR ''a'' CHR ''z'']"

definition alnum :: "cset list" where
  "alnum = letter @ [Rng CHR ''0'' CHR ''9'']"

text \<open>\<^verbatim>\<open>[A-Za-z0-9._%+-]+@[A-Za-z0-9.-]+\.[A-Za-z]{2,}\<close>\<close>

definition email_re :: rx where
  "email_re =
     cat [plus (Atom (alnum @ [Lit CHR ''.'', Lit CHR ''_'', Lit CHR ''%'', Lit CHR ''+'', Lit CHR ''-''])),
          lit CHR ''@'',
          plus (Atom (alnum @ [Lit CHR ''.'', Lit CHR ''-''])),
          lit CHR ''.'',
          Rep 2 None True (Atom letter)]"

text \<open>\<^verbatim>\<open>\b(?:\d[ -]*?){13,19}\b\<close>\<close>

definition card_re :: rx where
  "card_re =
     cat [WordB,
          Rep 13 (Some 19) True (Seq digit (Rep 0 None False (Atom [Lit CHR '' '', Lit CHR ''-'']))),
          WordB]"

text \<open>\<^verbatim>\<open>\b\d{3}-\d{2}-\d{4}\b\<close>\<close>

definition ssn_re :: rx where
  "ssn_re =
     cat [WordB, times 3 digit, lit CHR ''-'', times 2 digit, lit CHR ''-'', times 4 digit, WordB]"

text \<open>\<^verbatim>\<open>\b\d{6,18}\b\<close>\<close>

definition acct_re :: rx where
  "acct_re = cat [WordB, Rep 6 (Some 18) True digit, WordB]"

text \<open>\<^verbatim>\<open>\b(?:(?:25[0-5]|2[0-4]\d|[01]?\d?\d)\.){3}(?:25[0-5]|2[0-4]\d|[01]?\d?\d)\b\<close>\<close>

definition octet :: rx where
  "octet =
     Alt (cat [lit CHR ''2'', lit CHR ''5'', Atom [Rng CHR ''0'' CHR ''5'']])
       (Alt (cat [lit CHR ''2'', Atom [Rng CHR ''0'' CHR ''4''], digit])
          (cat [opt (Atom [Rng CHR ''0'' CHR ''1'']), opt digit, digit]))"

definition ip_re :: rx where
  "ip_re = cat [WordB, times 3 (Seq octet (lit CHR ''.'')), octet, WordB]"

text \<open>
  \<^verbatim>\<open>\bhttps?://\S+\b\<close> with \<open>re.IGNORECASE\<close>: a letter of the pattern matches its
  capital too.
\<close>

definition ci :: "char \<Rightarrow> char \<Rightarrow> rx" where
  "ci lower upper = Atom [Lit lower, Lit upper]"

definition url_re :: rx where
  "url_re =
     cat [WordB, ci CHR ''h'' CHR ''H'', ci CHR ''t'' CHR ''T'', ci CHR ''t'' CHR ''T'',
          ci CHR ''p'' CHR ''P'', opt (ci CHR ''s'' CHR ''S''),
          lit CHR '':'', lit CHR ''/'', lit CHR ''/'', plus (Atom [NonSpace]), WordB]"

text \<open>\<^verbatim>\<open>\b([A-Za-z0-9-]+\.)+[A-Za-z]{2,}\b\<close>\<close>

definition domain_re :: rx where
  "domain_re =
     cat [WordB,
          plus (Seq (plus (Atom (alnum @ [Lit CHR ''-'']))) (lit CHR ''.'')),
          Rep 2 None True (Atom letter),
          WordB]"

section \<open>The tokenizer\<close>

subsection \<open>HMAC-SHA256\<close>

text \<open>
  \<open>hmac.new(key, msg, hashlib.sha256).hexdigest()\<close> of the standard library: SHA-256 as in
  FIPS 180-4 over 32-bit words, HMAC as in RFC 2104 with the block size 64. The round
  constants and the initial hash value are written in decimal.
\<close>

type_synonym byte = "8 word"
type_synonym w32 = "32 word"

definition rotr :: "nat \<Rightarrow> w32 \<Rightarrow> w32" where
  "rotr n x = drop_bit n x OR push_bit (32 - n) x"

definition Ch :: "w32 \<Rightarrow> w32 \<Rightarrow> w32 \<Rightarrow> w32" where
  "Ch x y z = (x AND y) XOR (NOT x AND z)"

definition Maj :: "w32 \<Rightarrow> w32 \<Rightarrow> w32 \<Rightarrow> w32" where
  "Maj x y z = (x AND y) XOR (x AND z) XOR (y AND z)"

definition Sigma0 :: "w32 \<Rightarrow> w32" where
  "Sigma0 x = rotr 2 x XOR rotr 13 x XOR rotr 22 x"

definition Sigma1 :: "w32 \<Rightarrow> w32" where
  "Sigma1 x = rotr 6 x XOR rotr 11 x XOR rotr 25 x"

definition sigma0 :: "w32 \<Rightarrow> w32" where
  "sigma0 x = rotr 7 x XOR rotr 18 x XOR drop_bit 3 x"

definition sigma1 :: "w32 \<Rightarrow> w32" where
  "sigma1 x = rotr 17 x XOR rotr 19 x XOR drop_bit 10 x"

definition K256 :: "w32 list" where
  "K256 =
    [1116352408, 1899447441, 3049323471, 3921009573, 961987163, 1508970993,
     2453635748, 2870763221, 3624381080, 310598401, 607225278, 1426881987,
     1925078388, 2162078206, 2614888103, 3248222580, 3835390401, 4022224774,
     264347078, 604807628, 770255983, 1249150122, 1555081692, 1996064986,
     2554220882, 2821834349, 2952996808, 3210313671, 3336571891, 3584528711,
     113926993, 338241895, 666307205, 773529912, 1294757372, 1396182291,
     1695183700, 1986661051, 2177026350, 2456956037, 2730485921, 2820302411,
     3259730800, 3345764771, 3516065817, 3600352804, 4094571909, 275423344,
     430227734, 506948616, 659060556, 883997877, 958139571, 1322822218,
     1537002063, 1747873779, 1955562222, 2024104815, 2227730452, 2361852424,
     2428436474, 2756734187, 3204031479, 3329325298]"

type_synonym hstate = "w32 \<times> w32 \<times> w32 \<times> w32 \<times> w32 \<times> w32 \<times> w32 \<times> w32"

definition H256 :: hstate where
  "H256 =
     (1779033703, 3144134277, 1013904242, 2773480762,
      1359893119, 2600822924, 528734635, 1541459225)"

text \<open>The message schedule; \<open>win\<close> holds the sixteen words before the next one.\<close>

fun schedule :: "nat \<Rightarrow> w32 list \<Rightarrow> w32 list" where
  "schedule 0 win = []"
| "schedule (Suc n) win =
     (let v = sigma1 (win ! 14) + win ! 9 + sigma0 (win ! 1) + win ! 0
      in v # schedule n (tl win @ [v]))"

fun round256 :: "hstate \<Rightarrow> w32 \<times> w32 \<Rightarrow> hstate" where
  "round256 (a, b, c, d, e, f, g, h) (k, v) =
     (let t1 = h + Sigma1 e + Ch e f g + k + v;
          t2 = Sigma0 a + Maj a b c
      in (t1 + t2, a, b, c, d + t1, e, f, g))"

fun add_state :: "hstate \<Rightarrow> hstate \<Rightarrow> hstate" where
  "add_state (a, b, c, d, e, f, g, h) (a', b', c', d', e', f', g', h') =
     (a + a', b + b', c + c', d + d', e + e', f + f', g + g', h + h')"

definition compress :: "hstate \<Rightarrow> w32 list \<Rightarrow> hstate" where
  "compress st blk = add_state st (foldl round256 st (zip K256 (blk @ schedule 48 blk)))"

fun be32 :: "byte list \<Rightarrow> w32 list" where
  "be32 (a # b # c # d # r) =
     (push_bit 24 (ucast a) OR push_bit 16 (ucast b) OR push_bit 8 (ucast c) OR ucast d) # be32 r"
| "be32 _ = []"

definition pad :: "byte list \<Rightarrow> byte list" where
  "pad m =
     m @ [0x80] @ replicate ((119 - length m mod 64) mod 64) 0 @
     map (\<lambda>i. ucast (drop_bit (8 * i) (word_of_nat (8 * length m) :: 64 word))) [7, 6, 5, 4, 3, 2, 1, 0]"

fun blocks :: "nat \<Rightarrow> w32 list \<Rightarrow> w32 list list" where
  "blocks 0 ws = []"
| "blocks (Suc n) ws = take 16 ws # blocks n (drop 16 ws)"

definition unbe32 :: "w32 \<Rightarrow> byte list" where
  "unbe32 v = [ucast (drop_bit 24 v), ucast (drop_bit 16 v), ucast (drop_bit 8 v), ucast v]"

fun state_bytes :: "hstate \<Rightarrow> byte list" where
  "state_bytes (a, b, c, d, e, f, g, h) =
     unbe32 a @ unbe32 b @ unbe32 c @ unbe32 d @ unbe32 e @ unbe32 f @ unbe32 g @ unbe32 h"

definition sha256_blocks :: "byte list \<Rightarrow> w32 list list" where
  "sha256_blocks m = (let p = pad m in blocks (length p div 64) (be32 p))"

definition sha256 :: "byte list \<Rightarrow> byte list" where
  "sha256 m = state_bytes (foldl compress H256 (sha256_blocks m))"

definition hmac_key :: "byte list \<Rightarrow> byte list" where
  "hmac_key key =
     (let k0 = (if 64 < length key then sha256 key else key) in k0 @ replicate (64 - length k0) 0)"

definition ipad :: "byte list \<Rightarrow> byte list" where
  "ipad key = map (\<lambda>b. b XOR 0x36) (hmac_key key)"

definition opad :: "byte list \<Rightarrow> byte list" where
  "opad key = map (\<lambda>b. b XOR 0x5c) (hmac_key key)"

definition hmac_sha256 :: "byte list \<Rightarrow> byte list \<Rightarrow> byte list" where
  "hmac_sha256 key msg = sha256 (opad key @ sha256 (ipad key @ msg))"

definition hexchar :: "nat \<Rightarrow> char" where
  "hexchar n = ''0123456789abcdef'' ! n"

definition hexdigest :: "byte list \<Rightarrow> string" where
  "hexdigest bs = concat (map (\<lambda>b. [hexchar (unat b div 16), hexchar (unat b mod 16)]) bs)"

text \<open>\<open>str.encode()\<close>: UTF-8, two bytes for a code point from U+0080 on.\<close>

definition encode :: "string \<Rightarrow> byte list" where
  "encode s =
     concat (map (\<lambda>c. if code c < 128 then [word_of_nat (code c)]
                       else [word_of_nat (192 + code c div 64), word_of_nat (128 + code c mod 64)]) s)"

subsection \<open>The secret and the tag\<close>

text \<open>
  \<^verbatim>\<open>_SECRET = os.environ.get("REDACTION_SECRET", "project-secret").encode()\<close>, evaluated
  when the module is loaded. The environment is a map from names to values.
\<close>

definition SECRET :: "(string \<rightharpoonup> string) \<Rightarrow> byte list" where
  "SECRET env = encode (case env ''REDACTION_SECRET'' of None \<Rightarrow> ''project-secret'' | Some v \<Rightarrow> v)"

text \<open>
  \<^verbatim>\<open>_stable_tag(kind, text, n=6)\<close>; the secret, a global of the module, is the first
  argument here.
\<close>

definition stable_tag :: "byte list \<Rightarrow> string \<Rightarrow> string \<Rightarrow> nat \<Rightarrow> string" where
  "stable_tag secret kind text n =
     (let h = take n (hexdigest (hmac_sha256 secret (encode text)))
      in ''['' @ kind @ '':'' @ h @ '']'')"

section \<open>The string scrubber\<close>

definition scrub_str :: "byte list \<Rightarrow> string \<Rightarrow> string" where
  "scrub_str secret s0 =
     (let s1 = sub email_re (\<lambda>m. stable_tag secret ''EMAIL'' m 6) s0;
          s2 = sub ssn_re (\<lambda>m. stable_tag secret ''SSN'' m 6) s1;
          s3 = sub card_re (\<lambda>m. stable_tag secret ''CARD'' m 6) s2;
          s4 = sub acct_re (\<lambda>m. stable_tag secret ''ACCT'' m 6) s3;
          s5 = sub ip_re (\<lambda>m. stable_tag secret ''IP'' m 6) s4;
          s6 = sub url_re (\<lambda>m. stable_tag secret ''URL'' m 6) s5;
          s7 = sub domain_re (\<lambda>m. stable_tag secret ''DOMAIN'' m 6) s6
      in s7)"

section \<open>Records, the walker, the allowlist and the payload\<close>

text \<open>
  The values \<open>json.loads\<close> produces and \<open>json.dumps\<close> accepts. A dict keeps its
  insertion order, so it is a list of pairs (the keys of a Python dict are distinct). A
  float is carried as the text \<open>float.__repr__\<close> gives (\<open>nan\<close>, \<open>inf\<close> and \<open>-inf\<close> for
  the three floats that are not finite), which is all \<open>json.dumps\<close> reads of it.
\<close>

datatype json =
    JNull
  | JBool bool
  | JInt int
  | JFloat string
  | JStr string
  | JList "json list"
  | JDict "(string \<times> json) list"

fun scrub :: "byte list \<Rightarrow> json \<Rightarrow> json" where
  "scrub secret JNull = JNull"
| "scrub secret (JStr s) = JStr (scrub_str secret s)"
| "scrub secret (JInt i) = JInt i"
| "scrub secret (JFloat r) = JFloat r"
| "scrub secret (JBool b) = JBool b"
| "scrub secret (JList xs) = JList (map (scrub secret) xs)"
| "scrub secret (JDict kvs) = JDict (map (\<lambda>(k, v). (k, scrub secret v)) kvs)"

definition ALLOWED_FIELDS :: "string set" where
  "ALLOWED_FIELDS =
     {''case_id'', ''summary'', ''timeline'', ''indicators'',
      ''amount_usd'', ''detected_by'', ''actions_taken'', ''date''}"

text \<open>\<^verbatim>\<open>{k: d[k] for k in d if k in ALLOWED_FIELDS}\<close>\<close>

definition allowlist :: "(string \<times> json) list \<Rightarrow> (string \<times> json) list" where
  "allowlist d = filter (\<lambda>(k, v). k \<in> ALLOWED_FIELDS) d"

subsection \<open>Serialisation\<close>

text \<open>
  \<open>json.dumps(data, ensure_ascii=False)\<close>: the separators are \<open>", "\<close> and \<open>": "\<close>;
  in a string the quote, the backslash and the control characters below U+0020 are
  escaped, every other character is written as it is.
\<close>

fun join :: "string \<Rightarrow> string list \<Rightarrow> string" where
  "join sep [] = []"
| "join sep [x] = x"
| "join sep (x # xs) = x @ sep @ join sep xs"

definition u_escape :: "char \<Rightarrow> string" where
  "u_escape c = [CHR 0x5C, CHR ''u'', CHR ''0'', CHR ''0'', hexchar (code c div 16), hexchar (code c mod 16)]"

definition short_escape :: "char \<Rightarrow> string option" where
  "short_escape c =
     (if c = CHR 0x22 then Some [CHR 0x5C, CHR 0x22]
      else if c = CHR 0x5C then Some [CHR 0x5C, CHR 0x5C]
      else if c = CHR 0x0A then Some [CHR 0x5C, CHR ''n'']
      else if c = CHR 0x0D then Some [CHR 0x5C, CHR ''r'']
      else if c = CHR 0x09 then Some [CHR 0x5C, CHR ''t'']
      else if c = CHR 0x08 then Some [CHR 0x5C, CHR ''b'']
      else if c = CHR 0x0C then Some [CHR 0x5C, CHR ''f'']
      else None)"

definition escape_char :: "char \<Rightarrow> string" where
  "escape_char c =
     (case short_escape c of
        Some e \<Rightarrow> e
      | None \<Rightarrow> if code c < 32 then u_escape c else [c])"

definition quote :: "string \<Rightarrow> string" where
  "quote s = [CHR 0x22] @ concat (map escape_char s) @ [CHR 0x22]"

fun show_nat :: "nat \<Rightarrow> string" where
  "show_nat n = (if n < 10 then [hexchar n] else show_nat (n div 10) @ [hexchar (n mod 10)])"

declare show_nat.simps [simp del]

definition show_int :: "int \<Rightarrow> string" where
  "show_int i = (if i < 0 then ''-'' @ show_nat (nat (- i)) else show_nat (nat i))"

text \<open>
  The encoder's \<open>floatstr\<close>: \<open>NaN\<close>, \<open>Infinity\<close> and \<open>-Infinity\<close> for the floats that are
  not finite (\<open>allow_nan\<close> is on by default), \<open>float.__repr__\<close> for every other float.
\<close>

definition floatstr :: "string \<Rightarrow> string" where
  "floatstr r =
     (if r = ''nan'' then ''NaN''
      else if r = ''inf'' then ''Infinity''
      else if r = ''-inf'' then ''-Infinity''
      else r)"

fun dumps :: "json \<Rightarrow> string" where
  "dumps JNull = ''null''"
| "dumps (JBool b) = (if b then ''true'' else ''false'')"
| "dumps (JInt i) = show_int i"
| "dumps (JFloat r) = floatstr r"
| "dumps (JStr s) = quote s"
| "dumps (JList xs) = ''['' @ join '', '' (map dumps xs) @ '']''"
| "dumps (JDict kvs) = ''{'' @ join '', '' (map (\<lambda>(k, v). quote k @ '': '' @ dumps v) kvs) @ ''}''"

subsection \<open>The safe payload\<close>

datatype error = JSONDecodeError

text \<open>
  \<open>make_safe_payload\<close> takes a \<open>str\<close> or an already parsed value. \<open>json.loads\<close> is the
  standard library's parser: it is the argument \<open>loads\<close>, which returns the parsed value
  or raises \<open>JSONDecodeError\<close>. The function has no \<open>try\<close>: what \<open>json.loads\<close> raises
  leaves \<open>make_safe_payload\<close>.
\<close>

definition make_safe_payload ::
  "(string \<Rightarrow> error + json) \<Rightarrow> byte list \<Rightarrow> json \<Rightarrow> error + string" where
  "make_safe_payload loads secret security_detail_json =
     (case (case security_detail_json of JStr t \<Rightarrow> loads t | v \<Rightarrow> Inr v) of
        Inl e \<Rightarrow> Inl e
      | Inr data \<Rightarrow>
          (let d = allowlist (case data of JDict kvs \<Rightarrow> kvs | _ \<Rightarrow> []);
               d' = scrub secret (JDict d)
           in Inr (dumps d')))"

text \<open>\<open>_parse_body\<close>, the handler's own parsing of the request body, catches the error.\<close>

definition parse_body :: "(string \<Rightarrow> error + json) \<Rightarrow> (string \<times> json) list \<Rightarrow> json" where
  "parse_body loads event =
     (case map_of event ''body'' of
        Some (JStr body) \<Rightarrow> (case loads body of Inl e \<Rightarrow> JDict [] | Inr v \<Rightarrow> v)
      | Some (JDict kvs) \<Rightarrow> JDict kvs
      | _ \<Rightarrow> JDict [])"

section \<open>The Azure variant\<close>

definition SENSITIVE_KEYS :: "string set" where
  "SENSITIVE_KEYS =
     {''account_id'', ''account_number'', ''card_number'', ''ssn'', ''email'', ''ip_address'',
      ''url'', ''domain'', ''name'', ''linked_accounts'', ''transaction_id''}"

text \<open>
  \<open>str.lower\<close> and \<open>str.upper\<close> on the code points below U+0100. The capital of U+00DF
  is \<open>SS\<close>; the capitals of U+00B5 and U+00FF are U+039C and U+0178, outside the range
  of \<open>char\<close>, and \<open>upper\<close> leaves these two characters as they are.
\<close>

definition lower_char :: "char \<Rightarrow> char" where
  "lower_char c =
     (let n = code c
      in if (65 \<le> n \<and> n \<le> 90) \<or> (192 \<le> n \<and> n \<le> 222 \<and> n \<noteq> 215) then char_of (n + 32) else c)"

definition lower :: "string \<Rightarrow> string" where
  "lower s = map lower_char s"

definition upper_char :: "char \<Rightarrow> string" where
  "upper_char c =
     (let n = code c
      in if (97 \<le> n \<and> n \<le> 122) \<or> (224 \<le> n \<and> n \<le> 254 \<and> n \<noteq> 247) then [char_of (n - 32)]
         else if n = 223 then ''SS''
         else [c])"

definition upper :: "string \<Rightarrow> string" where
  "upper s = concat (map upper_char s)"

fun redact :: "json \<Rightarrow> json" where
  "redact (JDict kvs) =
     JDict (map (\<lambda>(k, v). (k, if lower k \<in> SENSITIVE_KEYS
                                then JStr (''['' @ upper k @ ''_REDACTED]'')
                                else redact v)) kvs)"
| "redact (JList xs) = JList (map redact xs)"
| "redact (JStr s) = JStr s"
| "redact v = v"

text \<open>
  \<open>json.dumps(v, indent=2)\<close>: \<open>ensure_ascii\<close> is on, so every character outside
  U+0020 to U+007E is escaped; the items of a non-empty list or dict stand on lines of
  their own, two spaces deeper at each level.
\<close>

definition escape_char_ascii :: "char \<Rightarrow> string" where
  "escape_char_ascii c =
     (case short_escape c of
        Some e \<Rightarrow> e
      | None \<Rightarrow> if code c < 32 \<or> 126 < code c then u_escape c else [c])"

definition quote_ascii :: "string \<Rightarrow> string" where
  "quote_ascii s = [CHR 0x22] @ concat (map escape_char_ascii s) @ [CHR 0x22]"

definition newline_indent :: "nat \<Rightarrow> string" where
  "newline_indent level = CHR 0x0A # replicate (2 * level) CHR '' ''"

fun dumps_indent :: "nat \<Rightarrow> json \<Rightarrow> string" where
  "dumps_indent level JNull = ''null''"
| "dumps_indent level (JBool b) = (if b then ''true'' else ''false'')"
| "dumps_indent level (JInt i) = show_int i"
| "dumps_indent level (JFloat r) = floatstr r"
| "dumps_indent level (JStr s) = quote_ascii s"
| "dumps_indent level (JList xs) =
     (if xs = [] then ''[]''
      else ''['' @ newline_indent (Suc level) @
           join ('','' @ newline_indent (Suc level)) (map (dumps_indent (Suc level)) xs) @
           newline_indent level @ '']'')"
| "dumps_indent level (JDict kvs) =
     (if kvs = [] then ''{}''
      else ''{'' @ newline_indent (Suc level) @
           join ('','' @ newline_indent (Suc level))
             (map (\<lambda>(k, v). quote_ascii k @ '': '' @ dumps_indent (Suc level) v) kvs) @
           newline_indent level @ ''}'')"

definition local_guardrail_redact_json :: "(string \<Rightarrow> error + json) \<Rightarrow> string \<Rightarrow> error + string" where
  "local_guardrail_redact_json loads raw_json =
     (case loads raw_json of
        Inl e \<Rightarrow> Inl e
      | Inr data \<Rightarrow> Inr (dumps_indent 0 (redact data)))"

section \<open>Notions the properties are stated with\<close>

text \<open>The seven kinds, in the order in which \<open>scrub_str\<close> applies their detectors.\<close>

definition KINDS :: "string list" where
  "KINDS = [''EMAIL'', ''SSN'', ''CARD'', ''ACCT'', ''IP'', ''URL'', ''DOMAIN'']"

definition all_digits :: "string \<Rightarrow> bool" where
  "all_digits s = list_all is_digit s"

definition is_hex :: "char \<Rightarrow> bool" where
  "is_hex c = (c \<in> set ''0123456789abcdef'')"

definition lower_hex :: "string \<Rightarrow> bool" where
  "lower_hex s = list_all is_hex s"

text \<open>The digest \<open>_stable_tag\<close> puts into the token for \<open>text\<close>.\<close>

definition digest6 :: "byte list \<Rightarrow> string \<Rightarrow> string" where
  "digest6 secret text = take 6 (hexdigest (hmac_sha256 secret (encode text)))"

text \<open>
  The shape of a value: the value with every string leaf emptied. Two values have the
  same shape when they differ in the contents of string leaves only.
\<close>

fun shape :: "json \<Rightarrow> json" where
  "shape (JStr s) = JStr []"
| "shape (JList xs) = JList (map shape xs)"
| "shape (JDict kvs) = JDict (map (\<lambda>(k, v). (k, shape v)) kvs)"
| "shape v = v"


text \<open>Paths into a value: a key of a dict or an index of a list at each step.\<close>

datatype step = Key string | Idx nat

fun lookup :: "json \<Rightarrow> step list \<Rightarrow> json option" where
  "lookup v [] = Some v"
| "lookup (JDict kvs) (Key k # p) = (case map_of kvs k of None \<Rightarrow> None | Some v \<Rightarrow> lookup v p)"
| "lookup (JList xs) (Idx i # p) = (if i < length xs then lookup (xs ! i) p else None)"
| "lookup v (st # p) = None"

fun sensitive_step :: "step \<Rightarrow> bool" where
  "sensitive_step (Key k) = (lower k \<in> SENSITIVE_KEYS)"
| "sensitive_step (Idx i) = False"

text \<open>
  The characters \<open>json.dumps\<close> writes as they are when \<open>ensure_ascii\<close> is on: printable
  ASCII other than the quote and the backslash.
\<close>

definition printable :: "char \<Rightarrow> bool" where
  "printable c = (32 \<le> code c \<and> code c \<le> 126 \<and> c \<noteq> CHR 0x22 \<and> c \<noteq> CHR 0x5C)"

text \<open>
  \<open>json.loads\<close> is an argument of the functions that call it. In an example it is fixed at
  the one text of the example: \<open>loads_only text v\<close> parses \<open>text\<close> to \<open>v\<close> and rejects
  every other text.
\<close>

definition loads_only :: "string \<Rightarrow> json \<Rightarrow> string \<Rightarrow> error + json" where
  "loads_only text v t = (if t = text then Inr v else Inl JSONDecodeError)"


subsection \<open>Measures of a pattern\<close>

text \<open>
  Three measures of a pattern, used in the proofs about the matcher: \<open>mincount P r\<close> is a
  number of characters with the property \<open>P\<close> that every match of \<open>r\<close> contains;
  \<open>in_alpha r\<close> holds of the characters a match of \<open>r\<close> can contain; \<open>wfree r\<close> says that
  \<open>r\<close> has no \<open>\b\<close>. A matcher is local when what it matches depends on the matched text
  only, not on what stands before or behind it.
\<close>

fun mincount :: "(char \<Rightarrow> bool) \<Rightarrow> rx \<Rightarrow> nat" where
  "mincount P Eps = 0"
| "mincount P (Atom cs) = (if \<forall>c. in_class cs c \<longrightarrow> P c then 1 else 0)"
| "mincount P WordB = 0"
| "mincount P (Seq a b) = mincount P a + mincount P b"
| "mincount P (Alt a b) = min (mincount P a) (mincount P b)"
| "mincount P (Rep lo hi greedy r) = lo * mincount P r"



definition local_m :: "(bool \<Rightarrow> string \<Rightarrow> nat list) \<Rightarrow> bool" where
  "local_m m = (\<forall>w w' y n. n \<in> set (m w y) \<longleftrightarrow> n \<le> length y \<and> n \<in> set (m w' (take n y)))"

section \<open>The digest\<close>

lemma hexchar_lower: "n < 16 \<Longrightarrow> is_hex (hexchar n)"
  unfolding hexchar_def is_hex_def by (rule nth_mem) simp

lemma hexdigest_lower: "lower_hex (hexdigest bs)"
proof -
  have "unat b div 16 < 16 \<and> unat b mod 16 < 16" for b :: byte
    using unsigned_less [of b, where ?'a = nat] by (simp add: less_mult_imp_div_less)
  then show ?thesis
    unfolding lower_hex_def hexdigest_def
    by (induction bs) (simp_all add: hexchar_lower)
qed

lemma length_hexdigest: "length (hexdigest bs) = 2 * length bs"
  unfolding hexdigest_def by (induction bs) simp_all

lemma length_state_bytes: "length (state_bytes st) = 32"
  by (cases st rule: state_bytes.cases) (simp add: unbe32_def)

lemma length_sha256: "length (sha256 m) = 32"
  by (simp add: sha256_def length_state_bytes)

lemma length_hmac: "length (hmac_sha256 key msg) = 32"
  by (simp add: hmac_sha256_def length_sha256)

lemma digest6_length: "length (digest6 secret text) = 6"
  by (simp add: digest6_def length_hexdigest length_hmac)

lemma lower_hex_take: "lower_hex s \<Longrightarrow> lower_hex (take n s)"
  unfolding lower_hex_def by (metis append_take_drop_id list_all_append)

lemma digest6_hex: "lower_hex (digest6 secret text)"
  by (simp add: digest6_def lower_hex_take hexdigest_lower)

lemma stable_tag_digest6:
  "stable_tag secret kind text 6 = ''['' @ kind @ '':'' @ digest6 secret text @ '']''"
  by (simp add: stable_tag_def digest6_def)

section \<open>The tokenizer is a function of the secret, the kind and the text\<close>

text \<open>
  Claim C8. For a fixed secret the token is determined by the kind and the matched text
  (\<open>stable_tag\<close> reads nothing else), and it is \<open>[KIND:digest]\<close> with a digest of
  exactly six lower-case hexadecimal characters.
\<close>

theorem stable_tag_format:
  "stable_tag secret kind text 6 = ''['' @ kind @ '':'' @ digest6 secret text @ '']'' \<and>
   length (digest6 secret text) = 6 \<and> lower_hex (digest6 secret text)"
  by (simp add: stable_tag_digest6 digest6_length digest6_hex)

section \<open>The walker keeps the shape\<close>

text \<open>
  Claim C6. \<open>scrub\<close> returns a value of the same shape as its argument: the same keys
  in the same order in every dict, the same length and order in every list, the same
  numbers, booleans and nulls; only the contents of string leaves may differ.
\<close>

theorem scrub_shape: "shape (scrub secret x) = shape x"
  by (induction x) (auto simp: case_prod_beta)

section \<open>The allowlist\<close>

text \<open>
  Claim C7. Every key of \<open>allowlist d\<close> is an allowed field and a key of \<open>d\<close>; the
  other entries are dropped, and nothing raises: a dict with extraneous keys still gives
  a payload. The entries that are kept are the entries of \<open>d\<close> themselves, so a dict
  nested in an allowed field keeps all its keys.
\<close>

theorem allowlist_containment:
  "fst ` set (allowlist d) \<subseteq> ALLOWED_FIELDS \<inter> fst ` set d \<and>
   set (allowlist d) = {(k, v). (k, v) \<in> set d \<and> k \<in> ALLOWED_FIELDS} \<and>
   make_safe_payload loads secret (JDict d) = Inr (dumps (scrub secret (JDict (allowlist d))))"
  by (auto simp: allowlist_def make_safe_payload_def)

section \<open>A parse failure leaves \<open>make_safe_payload\<close> as an error\<close>

lemma make_safe_payload_dict:
  "make_safe_payload loads secret (JDict d) = Inr (dumps (scrub secret (JDict (allowlist d))))"
  by (simp add: make_safe_payload_def)

lemma make_safe_payload_text:
  "make_safe_payload loads secret (JStr t) =
     (case loads t of
        Inl e \<Rightarrow> Inl e
      | Inr data \<Rightarrow>
          Inr (dumps (scrub secret (JDict (allowlist (case data of JDict kvs \<Rightarrow> kvs | _ \<Rightarrow> []))))))"
  by (simp add: make_safe_payload_def split: sum.splits)

text \<open>
  Claim C2 says that for a text that does not parse \<open>make_safe_payload\<close> returns the
  serialisation of the empty record and never raises. The code does not do that: the
  error of \<open>json.loads\<close> leaves \<open>make_safe_payload\<close>, so the result is the error and not
  \<open>{}\<close>. The handler's own \<open>_parse_body\<close> does catch the same error and returns the
  empty dict.
\<close>

theorem make_safe_payload_raises:
  "loads t = Inl e \<Longrightarrow>
     make_safe_payload loads secret (JStr t) = Inl e \<and>
     make_safe_payload loads secret (JStr t) \<noteq> Inr (dumps (JDict [])) \<and>
     parse_body loads [(''body'', JStr t)] = JDict []"
  by (simp add: make_safe_payload_text parse_body_def)

theorem make_safe_payload_raises_witness:
  "(\<lambda>t. if t = ''{}'' then Inr (JDict []) else Inl JSONDecodeError) ''not valid structured text''
     = Inl JSONDecodeError \<and>
   make_safe_payload (\<lambda>t. if t = ''{}'' then Inr (JDict []) else Inl JSONDecodeError) []
     (JStr ''not valid structured text'') = Inl JSONDecodeError \<and>
   parse_body (\<lambda>t. if t = ''{}'' then Inr (JDict []) else Inl JSONDecodeError)
     [(''body'', JStr ''not valid structured text'')] = JDict []"
  using make_safe_payload_raises
    [of "\<lambda>t. if t = ''{}'' then Inr (JDict []) else Inl JSONDecodeError"
        "''not valid structured text''" JSONDecodeError "[]"]
  by simp

section \<open>Properties of the matcher\<close>

lemma set_seq_ends:
  "set (seq_ends m1 m2 w x) =
     {n + k | n k. n \<in> set (m1 w x) \<and> k \<in> set (m2 (after w x n) (drop n x))}"
  by (auto simp: seq_ends_def)

lemma set_rep_ends:
  "set (rep_ends m lo hi g w x) =
     (if lo = 0 then {0} else {}) \<union>
     (if hi = Some 0 then {}
      else {n + k | n k. n \<in> set (m w x) \<and> 0 < n \<and> n \<le> length x \<and>
              k \<in> set (rep_ends m (lo - 1) (map_option (\<lambda>h. h - 1) hi) g (after w x n) (drop n x))})"
  by (subst rep_ends.simps) (auto simp: Let_def)

lemma rep_ends_cases:
  assumes "n \<in> set (rep_ends m lo hi g w x)"
  obtains (stop) "n = 0" "lo = 0"
  | (more) a k where "n = a + k" "a \<in> set (m w x)" "0 < a" "a \<le> length x" "hi \<noteq> Some 0"
      "k \<in> set (rep_ends m (lo - 1) (map_option (\<lambda>h. h - 1) hi) g (after w x a) (drop a x))"
  using assms by (subst (asm) set_rep_ends) (auto split: if_splits)



subsection \<open>A match stays inside the text\<close>

lemma rep_ends_le:
  assumes m: "\<And>w y n. n \<in> set (m w y) \<Longrightarrow> n \<le> length y"
  shows "n \<in> set (rep_ends m lo hi g w x) \<Longrightarrow> n \<le> length x"
proof (induction "length x" arbitrary: x lo hi w n rule: less_induct)
  case less
  from less.prems show ?case
  proof (cases rule: rep_ends_cases)
    case stop
    then show ?thesis by simp
  next
    case (more a k)
    have "length (drop a x) < length x" using more by simp
    from less.hyps [OF this more(6)] more show ?thesis by simp
  qed
qed

lemma ends_le: "n \<in> set (ends r w x) \<Longrightarrow> n \<le> length x"
proof (induction r arbitrary: n w x)
  case (Atom cs)
  then show ?case by (auto split: list.splits if_splits)
next
  case (Seq r1 r2)
  from Seq.prems obtain a k where ak: "n = a + k" "a \<in> set (ends r1 w x)"
    "k \<in> set (ends r2 (after w x a) (drop a x))"
    by (auto simp: set_seq_ends)
  from Seq.IH(1) [OF ak(2)] Seq.IH(2) [OF ak(3)] ak(1) show ?case by simp
next
  case (Rep lo hi g r)
  have "\<And>w y n. n \<in> set (ends r w y) \<Longrightarrow> n \<le> length y"
    using Rep.IH by blast
  from rep_ends_le [of "ends r", OF this] Rep.prems
  show ?case by simp
qed (auto split: if_splits)

subsection \<open>Characters a match must contain\<close>

lemma filter_take_add:
  "length (filter P (take (a + k) x)) = length (filter P (take a x)) + length (filter P (take k (drop a x)))"
  by (simp add: take_add)

lemma rep_ends_mincount:
  assumes m: "\<And>w y n. n \<in> set (m w y) \<Longrightarrow> c \<le> length (filter P (take n y))"
  shows "n \<in> set (rep_ends m lo hi g w x) \<Longrightarrow> lo * c \<le> length (filter P (take n x))"
proof (induction "length x" arbitrary: x lo hi w n rule: less_induct)
  case less
  from less.prems show ?case
  proof (cases rule: rep_ends_cases)
    case stop
    then show ?thesis by simp
  next
    case (more a k)
    have "length (drop a x) < length x" using more by simp
    from less.hyps [OF this more(6)]
    have 1: "(lo - 1) * c \<le> length (filter P (take k (drop a x)))" .
    from m [OF more(2)] have 2: "c \<le> length (filter P (take a x))" .
    have "lo * c \<le> (lo - 1) * c + c" by (cases lo) simp_all
    with 1 2 show ?thesis unfolding more(1) filter_take_add by linarith
  qed
qed

lemma ends_mincount: "n \<in> set (ends r w x) \<Longrightarrow> mincount P r \<le> length (filter P (take n x))"
proof (induction r arbitrary: n w x)
  case (Atom cs)
  then show ?case by (auto split: list.splits if_splits)
next
  case (Seq r1 r2)
  from Seq.prems obtain a k where ak: "n = a + k" "a \<in> set (ends r1 w x)"
    "k \<in> set (ends r2 (after w x a) (drop a x))"
    by (auto simp: set_seq_ends)
  from Seq.IH(1) [OF ak(2)] Seq.IH(2) [OF ak(3)] show ?case
    unfolding ak(1) filter_take_add by simp
next
  case (Alt r1 r2)
  from Alt.prems have "n \<in> set (ends r1 w x) \<or> n \<in> set (ends r2 w x)" by simp
  then show ?case
    using Alt.IH by (auto intro: min.coboundedI1 min.coboundedI2)
next
  case (Rep lo hi g r)
  have "\<And>w y n. n \<in> set (ends r w y) \<Longrightarrow> mincount P r \<le> length (filter P (take n y))"
    using Rep.IH by blast
  from rep_ends_mincount [of "ends r" "mincount P r" P, OF this] Rep.prems
  show ?case by simp
qed simp_all

lemma ends_needs:
  assumes "0 < mincount P r" and "\<forall>c\<in>set x. \<not> P c"
  shows "ends r w x = []"
proof (rule ccontr)
  assume "ends r w x \<noteq> []"
  then obtain n where "n \<in> set (ends r w x)" by (cases "ends r w x") auto
  from ends_mincount [OF this, of P] assms(1) have "filter P (take n x) \<noteq> []" by auto
  then obtain c where "c \<in> set (take n x)" "P c"
    by (metis filter_False)
  with assms(2) show False by (auto dest: in_set_takeD)
qed

subsection \<open>The characters of a match\<close>



subsection \<open>Without \<open>\b\<close> a match depends on the matched text only\<close>

lemma local_mD1: "local_m m \<Longrightarrow> n \<in> set (m w y) \<Longrightarrow> n \<le> length y \<and> n \<in> set (m w' (take n y))"
  unfolding local_m_def by blast



lemma local_mD2: "local_m m \<Longrightarrow> n \<le> length y \<Longrightarrow> n \<in> set (m w' (take n y)) \<Longrightarrow> n \<in> set (m w y)"
  unfolding local_m_def by blast








subsection \<open>Substitution and search where nothing matches\<close>

lemma match_at_None: "match_at r w x = None \<longleftrightarrow> ends r w x = []"
  by (simp add: match_at_def split: list.splits)

lemma match_at_Some: "match_at r w x = Some n \<Longrightarrow> n \<in> set (ends r w x)"
  by (auto simp: match_at_def split: list.splits)

lemma re_sub_nomatch:
  "(\<And>w i. ends r w (drop i s) = []) \<Longrightarrow> re_sub r f w s = s"
proof (induction s arbitrary: w)
  case Nil
  from Nil [of w 0] show ?case by (simp add: match_at_def)
next
  case (Cons c x)
  from Cons.prems [of w 0] have 1: "match_at r w (c # x) = None"
    by (simp add: match_at_None)
  have "re_sub r f (is_word c) x = x"
  proof (rule Cons.IH)
    fix w i
    from Cons.prems [of w "Suc i"] show "ends r w (drop i x) = []" by simp
  qed
  with 1 show ?case by simp
qed




lemma ends_needs_drop:
  assumes "0 < mincount P r" and "\<forall>c\<in>set s. \<not> P c"
  shows "ends r w (drop i s) = []"
  using assms by (intro ends_needs [of P]) (auto dest: in_set_dropD)

lemma re_sub_needs:
  "0 < mincount P r \<Longrightarrow> \<forall>c\<in>set s. \<not> P c \<Longrightarrow> re_sub r f w s = s"
  by (rule re_sub_nomatch) (rule ends_needs_drop)


lemma ends_nonempty:
  assumes "0 < mincount (\<lambda>c. True) r"
  shows "0 \<notin> set (ends r w x)"
proof
  assume "0 \<in> set (ends r w x)"
  from ends_mincount [OF this, of "\<lambda>c. True"] assms show False by simp
qed

subsection \<open>What the patterns need\<close>

lemma in_class_Lit [simp]: "in_class [Lit a] c \<longleftrightarrow> c = a"
  by (simp add: in_class_def)

lemma in_class_Digit [simp]: "in_class [Digit] c \<longleftrightarrow> is_digit c"
  by (simp add: in_class_def)

lemma email_needs_at: "0 < mincount (\<lambda>c. c = CHR ''@'') email_re"
  by (simp add: email_re_def lit_def plus_def)

lemma ssn_needs_hyphen: "0 < mincount (\<lambda>c. c = CHR ''-'') ssn_re"
  by (simp add: ssn_re_def lit_def times_def)

lemma ip_needs_dot: "0 < mincount (\<lambda>c. c = CHR ''.'') ip_re"
  by (simp add: ip_re_def lit_def times_def)

lemma url_needs_slash: "0 < mincount (\<lambda>c. c = CHR ''/'') url_re"
  by (simp add: url_re_def lit_def plus_def opt_def ci_def)

lemma domain_needs_dot: "0 < mincount (\<lambda>c. c = CHR ''.'') domain_re"
  by (simp add: domain_re_def lit_def plus_def)

lemma card_needs_digits: "mincount is_digit card_re = 13"
  by (simp add: card_re_def digit_def)

lemma acct_needs_digits: "mincount is_digit acct_re = 6"
  by (simp add: acct_re_def digit_def)




lemma acct_nonempty: "0 < mincount (\<lambda>c. True) acct_re"
  by (simp add: acct_re_def digit_def)







subsection \<open>A pattern without \<open>\b\<close> finds nothing in what a substitution returns\<close>



lemma match_at_empty_text:
  assumes "\<And>w y. 0 \<notin> set (ends r w y)"
  shows "match_at r w [] = None"
proof -
  have "ends r w [] = []"
  proof (rule ccontr)
    assume "ends r w [] \<noteq> []"
    then obtain n where n: "n \<in> set (ends r w [])" by (cases "ends r w []") auto
    from ends_le [OF n] have "n = 0" by simp
    with n assms show False by simp
  qed
  then show ?thesis by (simp add: match_at_None)
qed

lemma re_sub_Some:
  assumes ne: "\<And>w y. 0 \<notin> set (ends r w y)" and "match_at r w (c # x) = Some n"
  shows "re_sub r f w (c # x) =
           f (take n (c # x)) @ re_sub r f (after w (c # x) n) (drop n (c # x))"
    and "0 < n" and "n \<le> length (c # x)"
proof -
  from match_at_Some [OF assms(2)] have n: "n \<in> set (ends r w (c # x))" .
  show 1: "0 < n"
  proof (rule ccontr)
    assume "\<not> 0 < n"
    then have "n = 0" by simp
    with n ne show False by blast
  qed
  from ends_le [OF n] show 2: "n \<le> length (c # x)" .
  from 1 2 assms(2) show "re_sub r f w (c # x) =
           f (take n (c # x)) @ re_sub r f (after w (c # x) n) (drop n (c # x))"
    by simp
qed







subsection \<open>Repetition over a run of characters\<close>

lemma rev_upt_step:
  "map Suc (if lo - 1 \<le> N then rev [lo - 1..<Suc N] else []) @ (if lo = 0 then [0] else []) =
     (if lo \<le> Suc N then rev [lo..<Suc (Suc N)] else [])"
proof (cases lo)
  case 0
  have "[0..<Suc (Suc N)] = 0 # [Suc 0..<Suc (Suc N)]" by (simp add: upt_conv_Cons)
  then show ?thesis using 0 by (simp add: rev_map [symmetric] map_Suc_upt del: upt_Suc)
next
  case (Suc k)
  then show ?thesis by (simp add: rev_map [symmetric] map_Suc_upt del: upt_Suc)
qed

lemma rep_run:
  assumes stop: "\<And>w. m w z = []"
  shows "(\<And>w i. i < length x \<Longrightarrow> m w (drop i (x @ z)) = [1]) \<Longrightarrow>
         rep_ends m lo (Some hi) True w (x @ z) =
           (if lo \<le> min hi (length x) then rev [lo..<Suc (min hi (length x))] else [])"
proof (induction x arbitrary: lo hi w)
  case Nil
  show ?case by (subst rep_ends.simps) (simp add: stop)
next
  case (Cons c x)
  from Cons.prems [of 0 w] have h: "m w (c # x @ z) = [1]" by simp
  have IH: "rep_ends m lo' (Some hi') True w' (x @ z) =
              (if lo' \<le> min hi' (length x) then rev [lo'..<Suc (min hi' (length x))] else [])"
    for lo' hi' w'
  proof (rule Cons.IH)
    fix w i
    assume "i < length x"
    with Cons.prems [of "Suc i" w] show "m w (drop i (x @ z)) = [1]" by simp
  qed
  show ?case
  proof (cases hi)
    case 0
    then show ?thesis by (subst rep_ends.simps) simp
  next
    case (Suc h)
    have "rep_ends m lo (Some hi) True w (c # x @ z) =
            map Suc (rep_ends m (lo - 1) (Some h) True (is_word c) (x @ z)) @ (if lo = 0 then [0] else [])"
      by (subst rep_ends.simps) (simp add: h Suc after_def)
    also have "\<dots> = (if lo \<le> Suc (min h (length x)) then rev [lo..<Suc (Suc (min h (length x)))] else [])"
      unfolding IH by (rule rev_upt_step)
    finally show ?thesis using Suc by simp
  qed
qed

lemma concat_map_nil: "(\<And>j. j \<in> set xs \<Longrightarrow> f j = []) \<Longrightarrow> concat (map f xs) = []"
  by (induction xs) simp_all

text \<open>A repetition of 1 or more rounds, then \<open>\b\<close>, over a run of word characters.\<close>

lemma run_then_wordb:
  assumes stop: "\<And>w. m w z = []"
    and step: "\<And>w i. i < length x \<Longrightarrow> m w (drop i (x @ z)) = [1]"
    and word: "\<forall>c\<in>set x. is_word c"
    and z: "z = [] \<or> \<not> is_word (hd z)"
    and lo: "0 < lo"
  shows "seq_ends (rep_ends m lo (Some hi) True) (ends WordB) w (x @ z) =
           (if lo \<le> length x \<and> length x \<le> hi then [length x] else [])"
proof -
  let ?n = "length x"
  define R where "R = (if lo \<le> min hi ?n then rev [lo..<Suc (min hi ?n)] else [])"
  define g where "g = (\<lambda>j. map (\<lambda>k. j + k) (ends WordB (after w (x @ z) j) (drop j (x @ z))))"
  have "rep_ends m lo (Some hi) True w (x @ z) = R"
    unfolding R_def using rep_run [of m z x lo hi w, OF stop step] by simp
  then have S: "seq_ends (rep_ends m lo (Some hi) True) (ends WordB) w (x @ z) = concat (map g R)"
    unfolding seq_ends_def g_def by (rule arg_cong)
  have g: "g j = (if j = ?n then [?n] else [])" if "lo \<le> j" "j \<le> ?n" for j
  proof -
    from that lo have j: "0 < j" "j - 1 < ?n" by simp_all
    then have a: "after w (x @ z) j = True"
      using word by (simp add: after_def nth_append)
    show ?thesis
    proof (cases "j = ?n")
      case True
      then show ?thesis unfolding g_def using a z by (cases z) auto
    next
      case False
      with that have "j < ?n" by simp
      then have "drop j (x @ z) = x ! j # drop (Suc j) x @ z"
        by (simp add: Cons_nth_drop_Suc)
      moreover have "is_word (x ! j)" using word \<open>j < ?n\<close> by simp
      ultimately show ?thesis unfolding g_def using a False by simp
    qed
  qed
  show ?thesis
  proof (cases "lo \<le> ?n \<and> ?n \<le> hi")
    case True
    then have "R = ?n # rev [lo..<?n]" by (simp add: R_def min_absorb2)
    moreover have "g ?n = [?n]" using g [of ?n] True by simp
    moreover have "concat (map g (rev [lo..<?n])) = []"
      by (rule concat_map_nil) (use g in auto)
    ultimately have c: "concat (map g R) = [?n]" by simp
    show ?thesis unfolding S c using True by simp
  next
    case False
    have c: "concat (map g R) = []"
    proof (rule concat_map_nil)
      fix j
      assume "j \<in> set R"
      then have "lo \<le> j" "j \<le> min hi ?n" by (auto simp: R_def split: if_splits)
      with False g [of j] show "g j = []" by auto
    qed
    show ?thesis unfolding S c using False by simp
  qed
qed

subsection \<open>ACCT and CARD on runs of digits\<close>

lemma is_digit_word: "is_digit c \<Longrightarrow> is_word c"
  by (simp add: is_digit_def is_word_def Let_def)

lemma acct_unfold:
  "ends acct_re w y =
     seq_ends (ends WordB) (seq_ends (rep_ends (ends digit) 6 (Some 18) True) (ends WordB)) w y"
  by (simp add: acct_re_def)


lemma map_plus_zero: "map (\<lambda>k. (0::nat) + k) xs = xs"
  by (induction xs) simp_all

lemma wordb_start:
  "x \<noteq> [] \<Longrightarrow> is_word (hd x) \<Longrightarrow> seq_ends (ends WordB) m False x = m False x"
  by (cases x) (simp_all add: seq_ends_def after_def map_plus_zero)

lemma acct_run:
  assumes "all_digits x" and "x \<noteq> []" and "z = [] \<or> \<not> is_word (hd z)"
  shows "ends acct_re False (x @ z) = (if 6 \<le> length x \<and> length x \<le> 18 then [length x] else [])"
proof -
  from assms(1) have d: "\<forall>c\<in>set x. is_digit c" by (simp add: all_digits_def list_all_iff)
  have stop: "ends digit w z = []" for w
    using assms(3) by (cases z) (auto simp: digit_def dest: is_digit_word)
  have step: "ends digit w (drop i (x @ z)) = [1]" if "i < length x" for w i
  proof -
    from that have "drop i (x @ z) = x ! i # drop (Suc i) x @ z"
      by (simp add: Cons_nth_drop_Suc)
    with d that show ?thesis by (simp add: digit_def)
  qed
  from assms(2) obtain c x' where x: "x = c # x'" by (cases x) auto
  with d have c: "is_word c" by (simp add: is_digit_word)
  have "ends acct_re False (x @ z) =
          seq_ends (rep_ends (ends digit) 6 (Some 18) True) (ends WordB) False (x @ z)"
    unfolding acct_unfold by (rule wordb_start) (use x c in simp_all)
  also have "\<dots> = (if 6 \<le> length x \<and> length x \<le> 18 then [length x] else [])"
    by (rule run_then_wordb [OF stop step _ assms(3)]) (use d in \<open>auto dest: is_digit_word\<close>)
  finally show ?thesis .
qed





section \<open>Tokens and runs of digits in the scrubber\<close>

subsection \<open>The characters of a token\<close>

lemma is_hex_plain:
  "is_hex c \<Longrightarrow> c \<noteq> CHR ''@'' \<and> c \<noteq> CHR ''.'' \<and> c \<noteq> CHR ''/'' \<and> c \<noteq> CHR ''-''"
  by (auto simp: is_hex_def)

lemma kind_plain:
  "K \<in> set KINDS \<Longrightarrow> c \<in> set K \<Longrightarrow>
     \<not> is_digit c \<and> c \<noteq> CHR ''@'' \<and> c \<noteq> CHR ''.'' \<and> c \<noteq> CHR ''/'' \<and> c \<noteq> CHR ''-''"
  by (auto simp: KINDS_def is_digit_def code_def)

lemma digest6_chars: "c \<in> set (digest6 secret m) \<Longrightarrow> is_hex c"
  using digest6_hex [of secret m] by (simp add: lower_hex_def list_all_iff)

lemma tag_set:
  "set (stable_tag secret K m 6) =
     {CHR ''['', CHR '':'', CHR '']''} \<union> set K \<union> set (digest6 secret m)"
  by (auto simp: stable_tag_digest6)

lemma tag_plain:
  assumes "K \<in> set KINDS" and "c \<in> set (stable_tag secret K m 6)"
  shows "c \<noteq> CHR ''@'' \<and> c \<noteq> CHR ''.'' \<and> c \<noteq> CHR ''/'' \<and> c \<noteq> CHR ''-''"
  using assms kind_plain [of K c] is_hex_plain [of c] digest6_chars [of c secret m]
  by (auto simp: tag_set)


lemma bracket_not_digit [simp]:
  "\<not> is_digit CHR ''[''" "\<not> is_digit CHR '']''" "\<not> is_digit CHR '':''"
  "\<not> is_word CHR ''[''" "\<not> is_word CHR '']''" "\<not> is_word CHR '':''"
  by (simp_all add: is_digit_def is_word_def code_def)

subsection \<open>No EMAIL match is left in a scrubbed string\<close>


lemma KINDS_mem:
  "''EMAIL'' \<in> set KINDS" "''SSN'' \<in> set KINDS" "''CARD'' \<in> set KINDS" "''ACCT'' \<in> set KINDS"
  "''IP'' \<in> set KINDS" "''URL'' \<in> set KINDS" "''DOMAIN'' \<in> set KINDS"
  by (simp_all add: KINDS_def)





subsection \<open>Substitution of a whole string, counting characters\<close>

lemma length_filter_take_drop: "length (filter P (take n (drop i s))) \<le> length (filter P s)"
proof -
  have "length (filter P (take n (drop i s))) \<le> length (filter P (drop i s))"
    by (metis append_take_drop_id filter_append le_add1 length_append)
  also have "\<dots> \<le> length (filter P s)"
    by (metis append_take_drop_id filter_append le_add2 length_append)
  finally show ?thesis .
qed

lemma ends_count:
  assumes "length (filter P s) < mincount P r"
  shows "ends r w (drop i s) = []"
proof (rule ccontr)
  assume "ends r w (drop i s) \<noteq> []"
  then obtain n where "n \<in> set (ends r w (drop i s))" by (cases "ends r w (drop i s)") auto
  from ends_mincount [OF this, of P] length_filter_take_drop [of P n i s] assms
  show False by simp
qed

lemma re_sub_count: "length (filter P s) < mincount P r \<Longrightarrow> re_sub r f w s = s"
  by (rule re_sub_nomatch) (rule ends_count)


lemma sub_whole:
  assumes "ends r False s = [length s]" and "s \<noteq> []" and ne: "\<And>w y. 0 \<notin> set (ends r w y)"
  shows "sub r f s = f s"
proof -
  from assms(2) obtain c x where s: "s = c # x" by (cases s) auto
  from assms(1) have "match_at r False (c # x) = Some (length (c # x))"
    by (simp add: match_at_def s)
  from re_sub_Some(1) [OF ne this, of f] show ?thesis
    by (simp add: sub_def s match_at_empty_text [OF ne])
qed

subsection \<open>ACCT on a token\<close>








subsection \<open>Strings the first three and the last three patterns leave alone\<close>

lemma digit_plain:
  "is_digit c \<Longrightarrow> c \<noteq> CHR ''@'' \<and> c \<noteq> CHR ''.'' \<and> c \<noteq> CHR ''/'' \<and> c \<noteq> CHR ''-''"
  by (auto simp: is_digit_def code_def)

lemma all_digits_set: "all_digits d \<longleftrightarrow> (\<forall>c\<in>set d. is_digit c)"
  by (simp add: all_digits_def list_all_iff)

lemma all_digits_filter: "all_digits d \<Longrightarrow> filter is_digit d = d"
  by (simp add: all_digits_set)




lemma tail_plain:
  assumes "\<forall>c\<in>set s. c \<noteq> CHR ''.'' \<and> c \<noteq> CHR ''/''"
  shows "sub domain_re fD (sub url_re fU (sub ip_re fI s)) = s"
proof -
  have 1: "sub ip_re fI s = s"
    unfolding sub_def by (rule re_sub_needs [OF ip_needs_dot]) (use assms in simp)
  have 2: "sub url_re fU s = s"
    unfolding sub_def by (rule re_sub_needs [OF url_needs_slash]) (use assms in simp)
  have 3: "sub domain_re fD s = s"
    unfolding sub_def by (rule re_sub_needs [OF domain_needs_dot]) (use assms in simp)
  show ?thesis by (simp only: 1 2 3)
qed

lemma scrub_str_stages:
  "scrub_str secret s =
     sub domain_re (\<lambda>m. stable_tag secret ''DOMAIN'' m 6)
       (sub url_re (\<lambda>m. stable_tag secret ''URL'' m 6)
          (sub ip_re (\<lambda>m. stable_tag secret ''IP'' m 6)
             (sub acct_re (\<lambda>m. stable_tag secret ''ACCT'' m 6)
                (sub card_re (\<lambda>m. stable_tag secret ''CARD'' m 6)
                   (sub ssn_re (\<lambda>m. stable_tag secret ''SSN'' m 6)
                      (sub email_re (\<lambda>m. stable_tag secret ''EMAIL'' m 6) s))))))"
  by (simp add: scrub_str_def)

subsection \<open>What the scrubber does to a token\<close>










subsection \<open>What the scrubber does to a run of digits\<close>

lemma acct_whole_run:
  assumes "all_digits d" and "6 \<le> length d" and "length d \<le> 18"
  shows "sub acct_re f d = f d"
proof (rule sub_whole)
  from assms(2) show ne: "d \<noteq> []" by auto
  from acct_run [OF assms(1) ne, of "[]"] assms(2,3)
  show "ends acct_re False d = [length d]" by simp
  show "0 \<notin> set (ends acct_re w y)" for w y by (rule ends_nonempty [OF acct_nonempty])
qed


lemma run_email_ssn:
  assumes "all_digits d"
  shows "sub ssn_re fS (sub email_re fE d) = d"
proof -
  from assms have p: "\<forall>c\<in>set d. c \<noteq> CHR ''@'' \<and> c \<noteq> CHR ''-''"
    using digit_plain by (auto simp: all_digits_set)
  have 1: "sub email_re fE d = d"
    unfolding sub_def by (rule re_sub_needs [OF email_needs_at]) (use p in simp)
  have 2: "sub ssn_re fS d = d"
    unfolding sub_def by (rule re_sub_needs [OF ssn_needs_hyphen]) (use p in simp)
  show ?thesis by (simp only: 1 2)
qed

lemma short_run_card:
  assumes "all_digits d" and "length d < 13"
  shows "sub card_re fC d = d"
  unfolding sub_def
  by (rule re_sub_count [of is_digit]) (simp add: card_needs_digits all_digits_filter assms)

lemma scrub_str_short_run:
  assumes "all_digits d" and "6 \<le> length d" and "length d \<le> 12"
  shows "scrub_str secret d = stable_tag secret ''ACCT'' d 6"
proof -
  from assms(3) have l: "length d < 13" "length d \<le> 18" by simp_all
  have "\<forall>c\<in>set (stable_tag secret ''ACCT'' d 6). c \<noteq> CHR ''.'' \<and> c \<noteq> CHR ''/''"
    using tag_plain [OF KINDS_mem(4)] by blast
  from tail_plain [OF this] show ?thesis
    unfolding scrub_str_stages run_email_ssn [OF assms(1)] short_run_card [OF assms(1) l(1)]
      acct_whole_run [OF assms(1,2) l(2)] .
qed


subsection \<open>What the patterns find in a token\<close>



section \<open>Two digests under the default secret\<close>

text \<open>
  The digests of \<open>100004\<close> and of \<open>123456 1234567\<close> under the key \<open>project-secret\<close>,
  evaluated block by block.
\<close>

lemma compress_ipad_default:
  "compress H256
     [0x4644595c, 0x5355421b, 0x45535544, 0x53423636, 0x36363636, 0x36363636, 0x36363636,
     0x36363636, 0x36363636, 0x36363636, 0x36363636, 0x36363636, 0x36363636, 0x36363636,
     0x36363636, 0x36363636] =
     (0x7e3a7fd1, 0x42010610, 0x34b206f9, 0x1b9a08a1, 0xff134b66, 0xbaa16b79, 0x8766eb07,
     0x170049ad)"
  by code_simp

lemma compress_opad_default:
  "compress H256
     [0x2c2e3336, 0x393f2871, 0x2f393f2e, 0x39285c5c, 0x5c5c5c5c, 0x5c5c5c5c, 0x5c5c5c5c,
     0x5c5c5c5c, 0x5c5c5c5c, 0x5c5c5c5c, 0x5c5c5c5c, 0x5c5c5c5c, 0x5c5c5c5c, 0x5c5c5c5c,
     0x5c5c5c5c, 0x5c5c5c5c] =
     (0xba158964, 0xfa2bb8d2, 0xa36d529c, 0x793dd19b, 0x828aef2f, 0x0db8c526, 0x2851e87c,
     0x6794d5d6)"
  by code_simp

lemma inner_blocks_acct:
  "sha256_blocks (ipad (SECRET Map.empty) @ encode ''100004'') =
    [[0x4644595c, 0x5355421b, 0x45535544, 0x53423636, 0x36363636, 0x36363636, 0x36363636,
     0x36363636, 0x36363636, 0x36363636, 0x36363636, 0x36363636, 0x36363636, 0x36363636,
     0x36363636, 0x36363636],
     [0x31303030, 0x30348000, 0x00000000, 0x00000000, 0x00000000, 0x00000000, 0x00000000,
     0x00000000, 0x00000000, 0x00000000, 0x00000000, 0x00000000, 0x00000000, 0x00000000,
     0x00000000, 0x00000230]]"
  by code_simp

lemma compress_inner_acct:
  "compress
     (0x7e3a7fd1, 0x42010610, 0x34b206f9, 0x1b9a08a1, 0xff134b66, 0xbaa16b79, 0x8766eb07,
     0x170049ad)
     [0x31303030, 0x30348000, 0x00000000, 0x00000000, 0x00000000, 0x00000000, 0x00000000,
     0x00000000, 0x00000000, 0x00000000, 0x00000000, 0x00000000, 0x00000000, 0x00000000,
     0x00000000, 0x00000230] =
     (0x604ddc04, 0x2ee5fdb0, 0x21587599, 0x40328a48, 0x097c7e49, 0xbda0cb65, 0x19a3e386,
     0xb6164a96)"
  by code_simp

lemma inner_bytes_acct:
  "state_bytes
     (0x604ddc04, 0x2ee5fdb0, 0x21587599, 0x40328a48, 0x097c7e49, 0xbda0cb65, 0x19a3e386,
     0xb6164a96) =
     [0x60, 0x4d, 0xdc, 0x04, 0x2e, 0xe5, 0xfd, 0xb0, 0x21, 0x58, 0x75, 0x99, 0x40, 0x32, 0x8a,
     0x48, 0x09, 0x7c, 0x7e, 0x49, 0xbd, 0xa0, 0xcb, 0x65, 0x19, 0xa3, 0xe3, 0x86, 0xb6, 0x16,
     0x4a, 0x96]"
  by code_simp

lemma inner_digest_acct:
  "sha256 (ipad (SECRET Map.empty) @ encode ''100004'') =
     [0x60, 0x4d, 0xdc, 0x04, 0x2e, 0xe5, 0xfd, 0xb0, 0x21, 0x58, 0x75, 0x99, 0x40, 0x32, 0x8a,
     0x48, 0x09, 0x7c, 0x7e, 0x49, 0xbd, 0xa0, 0xcb, 0x65, 0x19, 0xa3, 0xe3, 0x86, 0xb6, 0x16,
     0x4a, 0x96]"
  by (simp only: sha256_def inner_blocks_acct foldl.simps compress_ipad_default compress_inner_acct
        inner_bytes_acct)

lemma outer_blocks_acct:
  "sha256_blocks (opad (SECRET Map.empty) @
     [0x60, 0x4d, 0xdc, 0x04, 0x2e, 0xe5, 0xfd, 0xb0, 0x21, 0x58, 0x75, 0x99, 0x40, 0x32, 0x8a,
     0x48, 0x09, 0x7c, 0x7e, 0x49, 0xbd, 0xa0, 0xcb, 0x65, 0x19, 0xa3, 0xe3, 0x86, 0xb6, 0x16,
     0x4a, 0x96]) =
    [[0x2c2e3336, 0x393f2871, 0x2f393f2e, 0x39285c5c, 0x5c5c5c5c, 0x5c5c5c5c, 0x5c5c5c5c,
     0x5c5c5c5c, 0x5c5c5c5c, 0x5c5c5c5c, 0x5c5c5c5c, 0x5c5c5c5c, 0x5c5c5c5c, 0x5c5c5c5c,
     0x5c5c5c5c, 0x5c5c5c5c],
     [0x604ddc04, 0x2ee5fdb0, 0x21587599, 0x40328a48, 0x097c7e49, 0xbda0cb65, 0x19a3e386,
     0xb6164a96, 0x80000000, 0x00000000, 0x00000000, 0x00000000, 0x00000000, 0x00000000,
     0x00000000, 0x00000300]]"
  by code_simp

lemma compress_outer_acct:
  "compress
     (0xba158964, 0xfa2bb8d2, 0xa36d529c, 0x793dd19b, 0x828aef2f, 0x0db8c526, 0x2851e87c,
     0x6794d5d6)
     [0x604ddc04, 0x2ee5fdb0, 0x21587599, 0x40328a48, 0x097c7e49, 0xbda0cb65, 0x19a3e386,
     0xb6164a96, 0x80000000, 0x00000000, 0x00000000, 0x00000000, 0x00000000, 0x00000000,
     0x00000000, 0x00000300] =
     (0x04856348, 0x50e46446, 0xf9e680a5, 0x8d0de3df, 0xe9ba65d3, 0x18896337, 0xc711b341,
     0x61c6c940)"
  by code_simp

lemma outer_hex_acct:
  "take 6 (hexdigest (state_bytes
     (0x04856348, 0x50e46446, 0xf9e680a5, 0x8d0de3df, 0xe9ba65d3, 0x18896337, 0xc711b341,
     0x61c6c940))) = ''048563''"
  by code_simp

lemma digest6_acct: "digest6 (SECRET Map.empty) ''100004'' = ''048563''"
  unfolding digest6_def hmac_sha256_def inner_digest_acct
  by (simp only: sha256_def outer_blocks_acct foldl.simps compress_opad_default compress_outer_acct
        outer_hex_acct)









subsection \<open>Examples under the default secret\<close>

lemma escape_char_printable: "printable c \<Longrightarrow> escape_char c = [c]"
  by (auto simp: printable_def escape_char_def short_escape_def code_def)

lemma quote_printable: "list_all printable s \<Longrightarrow> quote s = [CHR 0x22] @ s @ [CHR 0x22]"
  unfolding quote_def by (induction s) (simp_all add: escape_char_printable)

lemma payload_summary:
  "loads raw = Inr (JDict [(''summary'', JStr s)]) \<Longrightarrow> list_all printable (scrub_str secret s) \<Longrightarrow>
     make_safe_payload loads secret (JStr raw) =
       Inr (''{'' @ [CHR 0x22] @ ''summary'' @ [CHR 0x22] @ '': '' @
            [CHR 0x22] @ scrub_str secret s @ [CHR 0x22] @ ''}'')"
proof -
  assume l: "loads raw = Inr (JDict [(''summary'', JStr s)])"
    and p: "list_all printable (scrub_str secret s)"
  have q: "quote ''summary'' = [CHR 0x22] @ ''summary'' @ [CHR 0x22]"
    by (rule quote_printable) (simp add: printable_def code_def)
  show ?thesis
    using q quote_printable [OF p]
    by (simp add: make_safe_payload_text l allowlist_def ALLOWED_FIELDS_def)
qed

lemma all_digits_100004: "all_digits ''100004''"
  by (simp add: all_digits_def is_digit_def code_def)

lemma scrub_100004: "scrub_str (SECRET Map.empty) ''100004'' = ''[ACCT:048563]''"
  using scrub_str_short_run [OF all_digits_100004, of "SECRET Map.empty"]
  by (simp add: stable_tag_digest6 digest6_acct)









section \<open>No EMAIL match is left in the payload's strings\<close>




section \<open>The secret has a default\<close>

text \<open>
  Claim C3 says that the engine refuses to start without a secret. The code reads the
  secret with a default instead: when \<open>REDACTION_SECRET\<close> is missing the key is
  \<open>project-secret\<close>, when it is set to the empty string the key is empty, and in every
  environment \<open>make_safe_payload\<close> returns a payload for a record.
\<close>

theorem secret_never_required:
  "SECRET (env(''REDACTION_SECRET'' := None)) = encode ''project-secret'' \<and>
   SECRET (env(''REDACTION_SECRET'' \<mapsto> [])) = [] \<and>
   make_safe_payload loads (SECRET env) (JDict d) =
     Inr (dumps (scrub (SECRET env) (JDict (allowlist d))))"
  by (simp add: SECRET_def make_safe_payload_dict encode_def)

text \<open>
  Claim C3 as it is written fails in the empty environment: the key is the default one and
  a call is processed with it.
\<close>

theorem default_secret_runs:
  \<open>SECRET Map.empty = encode ''project-secret'' \<and>
   make_safe_payload
     (loads_only ''{"summary": "100004"}'' (JDict [(''summary'', JStr ''100004'')]))
     (SECRET Map.empty) (JStr ''{"summary": "100004"}'')
     = Inr ''{"summary": "[ACCT:048563]"}''\<close>
proof -
  let ?raw = \<open>''{"summary": "100004"}''\<close>
  have p: "loads_only ?raw (JDict [(''summary'', JStr ''100004'')]) ?raw =
             Inr (JDict [(''summary'', JStr ''100004'')])"
    by (simp add: loads_only_def)
  have q: "list_all printable (scrub_str (SECRET Map.empty) ''100004'')"
    unfolding scrub_100004 by (simp add: printable_def code_def)
  have A: "SECRET Map.empty = encode ''project-secret''" by (simp add: SECRET_def)
  from payload_summary [of "loads_only ?raw (JDict [(''summary'', JStr ''100004'')])" ?raw, OF p q]
  have B: \<open>make_safe_payload
     (loads_only ''{"summary": "100004"}'' (JDict [(''summary'', JStr ''100004'')]))
     (SECRET Map.empty) (JStr ''{"summary": "100004"}'')
     = Inr ''{"summary": "[ACCT:048563]"}''\<close>
    by (simp add: scrub_100004)
  from A B show ?thesis by (intro conjI)
qed

section \<open>Scrubbing a token again\<close>




section \<open>What the patterns find in a token\<close>




section \<open>The order of the detectors\<close>




section \<open>The Azure variant redacts by key only\<close>

lemma map_of_map_value:
  "map_of (map (\<lambda>(k, v). (k, g k v)) kvs) k = map_option (g k) (map_of kvs k)"
  by (induction kvs) auto

lemma redact_lookup:
  "lookup x p = Some v \<Longrightarrow> list_all (\<lambda>st. \<not> sensitive_step st) p \<Longrightarrow>
     lookup (redact x) p = Some (redact v)"
proof (induction x p rule: lookup.induct)
  case (1 v)
  then show ?case by simp
next
  case (2 kvs k p)
  from "2.prems" obtain u where u: "map_of kvs k = Some u" "lookup u p = Some v"
    by (auto split: option.splits)
  from "2.prems" have k: "lower k \<notin> SENSITIVE_KEYS" and p: "list_all (\<lambda>st. \<not> sensitive_step st) p"
    by simp_all
  have "lookup (redact u) p = Some (redact v)"
    using "2.IH" [OF u(1) u(2) p] .
  then show ?case
    using u k by (simp add: map_of_map_value)
next
  case (3 xs i p)
  then show ?case by (auto split: if_splits)
qed simp_all

lemma lookup_append:
  "lookup x p = Some v \<Longrightarrow> lookup x (p @ q) = lookup v q"
  by (induction x p rule: lookup.induct) (auto split: option.splits if_splits)

subsection \<open>The output text contains what \<open>redact\<close> keeps\<close>

lemma escape_printable: "printable c \<Longrightarrow> escape_char_ascii c = [c]"
  by (auto simp: printable_def escape_char_ascii_def short_escape_def code_def)

lemma quote_ascii_printable:
  "list_all printable s \<Longrightarrow> quote_ascii s = [CHR 0x22] @ s @ [CHR 0x22]"
  unfolding quote_ascii_def by (induction s) (simp_all add: escape_printable)

lemma join_contains: "x \<in> set xs \<Longrightarrow> \<exists>a b. join sep xs = a @ x @ b"
proof (induction sep xs rule: join.induct)
  case (1 sep)
  then show ?case by simp
next
  case (2 sep y)
  then have "join sep [y] = [] @ x @ []" by simp
  then show ?case by blast
next
  case (3 sep y z zs)
  show ?case
  proof (cases "x = y")
    case True
    then have "join sep (y # z # zs) = [] @ x @ (sep @ join sep (z # zs))" by simp
    then show ?thesis by blast
  next
    case False
    with "3.prems" have "x \<in> set (z # zs)" by simp
    from "3.IH" [OF this] obtain a b where "join sep (z # zs) = a @ x @ b" by blast
    then have "join sep (y # z # zs) = (y @ sep @ a) @ x @ b" by simp
    then show ?thesis by blast
  qed
qed

lemma dumps_indent_contains:
  "lookup x p = Some v \<Longrightarrow> \<exists>a b l. dumps_indent level x = a @ dumps_indent l v @ b"
proof (induction x p arbitrary: level rule: lookup.induct)
  case (1 v')
  then have "dumps_indent level v' = [] @ dumps_indent level v @ []" by simp
  then show ?case by blast
next
  case (2 kvs k p)
  from "2.prems" obtain u where u: "map_of kvs k = Some u" "lookup u p = Some v"
    by (auto split: option.splits)
  from "2.IH" [OF u, of "Suc level"] obtain a b l
    where i: "dumps_indent (Suc level) u = a @ dumps_indent l v @ b" by blast
  let ?f = "\<lambda>(k, v). quote_ascii k @ '': '' @ dumps_indent (Suc level) v"
  from u(1) have m: "(k, u) \<in> set kvs" by (rule map_of_SomeD)
  from imageI [OF m, of ?f] have "?f (k, u) \<in> set (map ?f kvs)" by simp
  from join_contains [OF this, of "'','' @ newline_indent (Suc level)"] obtain a' b'
    where j: "join ('','' @ newline_indent (Suc level)) (map ?f kvs) = a' @ ?f (k, u) @ b'"
    by blast
  from m have ne: "kvs \<noteq> []" by auto
  have "dumps_indent level (JDict kvs) =
          (''{'' @ newline_indent (Suc level) @ a' @ quote_ascii k @ '': '' @ a) @
          dumps_indent l v @ (b @ b' @ newline_indent level @ ''}'')"
    using ne j i by simp
  then show ?case by blast
next
  case (3 xs i p)
  from "3.prems" have l: "i < length xs" "lookup (xs ! i) p = Some v"
    by (auto split: if_splits)
  from "3.IH" [OF l, of "Suc level"] obtain a b l'
    where i: "dumps_indent (Suc level) (xs ! i) = a @ dumps_indent l' v @ b" by blast
  from l(1) have "dumps_indent (Suc level) (xs ! i) \<in> set (map (dumps_indent (Suc level)) xs)"
    by simp
  from join_contains [OF this, of "'','' @ newline_indent (Suc level)"] obtain a' b'
    where j: "join ('','' @ newline_indent (Suc level)) (map (dumps_indent (Suc level)) xs) =
                a' @ dumps_indent (Suc level) (xs ! i) @ b'"
    by blast
  from l(1) have ne: "xs \<noteq> []" by auto
  have "dumps_indent level (JList xs) =
          (''['' @ newline_indent (Suc level) @ a' @ a) @
          dumps_indent l' v @ (b @ b' @ newline_indent level @ '']'')"
    using ne j i by simp
  then show ?case by blast
qed simp_all

lemma local_guardrail_parsed:
  "loads raw = Inr x \<Longrightarrow> local_guardrail_redact_json loads raw = Inr (dumps_indent 0 (redact x))"
  by (simp add: local_guardrail_redact_json_def)

lemma note_printable: "list_all printable ''mail jane@example.com, card 4111111111111111''"
  by (simp add: printable_def code_def)

lemma email_key: "lower ''Email'' \<in> SENSITIVE_KEYS" "upper ''Email'' = ''EMAIL''"
  by code_simp+

lemma note_key: "lower ''note'' \<notin> SENSITIVE_KEYS"
  by (simp add: lower_def lower_char_def code_def SENSITIVE_KEYS_def)

lemma name_key: "lower ''name'' \<in> SENSITIVE_KEYS" "upper ''name'' = ''NAME''"
  by code_simp+

text \<open>
  Claim C10 says that every string stored under a key outside \<open>SENSITIVE_KEYS\<close> is
  returned as it is. That holds for the strings reached through keys that are all outside
  \<open>SENSITIVE_KEYS\<close> (compared in lower case), and the theorem says so for the output text
  of \<open>local_guardrail_redact_json\<close>: the text is the indented serialisation of
  \<open>redact\<close> of the parsed value; a value reached through non-sensitive keys is found at
  the same place; a string there is kept whatever it contains, and the output text contains
  its JSON string literal, which is the string itself between quotes when its characters
  are printable ASCII other than quote and backslash (other characters are escaped); and an
  entry of a dict there is replaced by the placeholder built from its key exactly when its
  key is sensitive.
\<close>

theorem azure_redact_by_key_only:
  assumes "loads raw = Inr x" and "lookup x p = Some v"
    and "list_all (\<lambda>st. \<not> sensitive_step st) p"
  shows "local_guardrail_redact_json loads raw = Inr (dumps_indent 0 (redact x)) \<and>
         lookup (redact x) p = Some (redact v) \<and>
         (\<forall>s. v = JStr s \<longrightarrow>
            lookup (redact x) p = Some (JStr s) \<and>
            (\<exists>a b. local_guardrail_redact_json loads raw = Inr (a @ quote_ascii s @ b)) \<and>
            (list_all printable s \<longrightarrow> quote_ascii s = [CHR 0x22] @ s @ [CHR 0x22])) \<and>
         (\<forall>kvs k u. v = JDict kvs \<and> map_of kvs k = Some u \<longrightarrow>
            lookup (redact x) (p @ [Key k]) =
              Some (if lower k \<in> SENSITIVE_KEYS then JStr (''['' @ upper k @ ''_REDACTED]'')
                    else redact u))"
proof -
  note out = local_guardrail_parsed [of loads raw x, OF assms(1)]
  have r: "lookup (redact x) p = Some (redact v)"
    using redact_lookup [OF assms(2,3)] .
  have s: "\<exists>a b. local_guardrail_redact_json loads raw = Inr (a @ quote_ascii s @ b)"
    if "v = JStr s" for s
  proof -
    from r that have "lookup (redact x) p = Some (JStr s)" by simp
    from dumps_indent_contains [OF this, of 0] show ?thesis by (simp add: out)
  qed
  have d: "lookup (redact x) (p @ [Key k]) =
          Some (if lower k \<in> SENSITIVE_KEYS then JStr (''['' @ upper k @ ''_REDACTED]'') else redact u)"
    if "v = JDict kvs" "map_of kvs k = Some u" for kvs k u
    using that lookup_append [OF r, of "[Key k]"] by (simp add: map_of_map_value)
  from out r s d show ?thesis by (auto simp: quote_ascii_printable)
qed

theorem azure_redact_by_key_only_witness:
  \<open>loads_only ''{"note": "mail jane@example.com, card 4111111111111111", "Email": "jane@example.com"}''
     (JDict [(''note'', JStr ''mail jane@example.com, card 4111111111111111''),
             (''Email'', JStr ''jane@example.com'')])
     ''{"note": "mail jane@example.com, card 4111111111111111", "Email": "jane@example.com"}''
     = Inr (JDict [(''note'', JStr ''mail jane@example.com, card 4111111111111111''),
                   (''Email'', JStr ''jane@example.com'')]) \<and>
   lookup (JDict [(''note'', JStr ''mail jane@example.com, card 4111111111111111''),
                  (''Email'', JStr ''jane@example.com'')]) [Key ''note'']
     = Some (JStr ''mail jane@example.com, card 4111111111111111'') \<and>
   list_all (\<lambda>st. \<not> sensitive_step st) [Key ''note''] \<and>
   list_all printable ''mail jane@example.com, card 4111111111111111'' \<and>
   lookup (redact (JDict [(''note'', JStr ''mail jane@example.com, card 4111111111111111''),
                          (''Email'', JStr ''jane@example.com'')])) [Key ''note'']
     = Some (JStr ''mail jane@example.com, card 4111111111111111'') \<and>
   local_guardrail_redact_json
     (loads_only ''{"note": "mail jane@example.com, card 4111111111111111", "Email": "jane@example.com"}''
        (JDict [(''note'', JStr ''mail jane@example.com, card 4111111111111111''),
                (''Email'', JStr ''jane@example.com'')]))
     ''{"note": "mail jane@example.com, card 4111111111111111", "Email": "jane@example.com"}''
     = Inr (''{'' @ [CHR 0x0A] @
            ''  "note": "mail jane@example.com, card 4111111111111111",'' @ [CHR 0x0A] @
            ''  "Email": "[EMAIL_REDACTED]"'' @ [CHR 0x0A] @ ''}'')\<close>
proof -
  let ?raw = \<open>''{"note": "mail jane@example.com, card 4111111111111111", "Email": "jane@example.com"}''\<close>
  let ?x = "JDict [(''note'', JStr ''mail jane@example.com, card 4111111111111111''),
                   (''Email'', JStr ''jane@example.com'')]"
  have p: "loads_only ?raw ?x ?raw = Inr ?x" by (simp add: loads_only_def)
  have l: "lookup ?x [Key ''note''] = Some (JStr ''mail jane@example.com, card 4111111111111111'')"
    by simp
  have n: "list_all (\<lambda>st. \<not> sensitive_step st) [Key ''note'']"
    using note_key by simp
  have q: "quote_ascii ''note'' = [CHR 0x22] @ ''note'' @ [CHR 0x22]"
    "quote_ascii ''Email'' = [CHR 0x22] @ ''Email'' @ [CHR 0x22]"
    "quote_ascii ''[EMAIL_REDACTED]'' = [CHR 0x22] @ ''[EMAIL_REDACTED]'' @ [CHR 0x22]"
    by (rule quote_ascii_printable; simp add: printable_def code_def)+
  have o: "dumps_indent 0 (redact ?x) =
             ''{'' @ [CHR 0x0A] @
             ''  '' @ [CHR 0x22] @ ''note'' @ [CHR 0x22] @ '': '' @ [CHR 0x22] @
               ''mail jane@example.com, card 4111111111111111'' @ [CHR 0x22] @ '','' @ [CHR 0x0A] @
             ''  '' @ [CHR 0x22] @ ''Email'' @ [CHR 0x22] @ '': '' @ [CHR 0x22] @
               ''[EMAIL_REDACTED]'' @ [CHR 0x22] @ [CHR 0x0A] @ ''}''"
    using note_key email_key q quote_ascii_printable [OF note_printable]
    by (simp add: newline_indent_def numeral_2_eq_2)
  note t = azure_redact_by_key_only [of "loads_only ?raw ?x" ?raw ?x, OF p l n]
  from t have A: "local_guardrail_redact_json (loads_only ?raw ?x) ?raw =
                    Inr (dumps_indent 0 (redact ?x))"
    by (rule conjunct1)
  from t have B: "lookup (redact ?x) [Key ''note''] =
                    Some (redact (JStr ''mail jane@example.com, card 4111111111111111''))"
    by (rule conjunct1 [OF conjunct2])
  have A': \<open>local_guardrail_redact_json (loads_only ?raw ?x) ?raw =
             Inr (''{'' @ [CHR 0x0A] @
                  ''  "note": "mail jane@example.com, card 4111111111111111",'' @ [CHR 0x0A] @
                  ''  "Email": "[EMAIL_REDACTED]"'' @ [CHR 0x0A] @ ''}'')\<close>
    unfolding A o by simp
  have B': "lookup (redact ?x) [Key ''note''] =
              Some (JStr ''mail jane@example.com, card 4111111111111111'')"
    unfolding B by simp
  from p l n note_printable B' A' show ?thesis by (intro conjI)
qed

text \<open>
  Claim C10 as it is written fails for a string under a non-sensitive key inside the value
  of a sensitive key: the whole value of the sensitive key is replaced, the string with it.
  In \<^verbatim>\<open>{"name": {"note": "a@b.co"}}\<close> the key \<open>note\<close> is not sensitive, and the output
  has nothing of its string.
\<close>

theorem azure_nested_under_sensitive_key:
  \<open>lower ''note'' \<notin> SENSITIVE_KEYS \<and>
   lookup (JDict [(''name'', JDict [(''note'', JStr ''a@b.co'')])]) [Key ''name'', Key ''note'']
     = Some (JStr ''a@b.co'') \<and>
   redact (JDict [(''name'', JDict [(''note'', JStr ''a@b.co'')])])
     = JDict [(''name'', JStr ''[NAME_REDACTED]'')] \<and>
   local_guardrail_redact_json
     (loads_only ''{"name": {"note": "a@b.co"}}'' (JDict [(''name'', JDict [(''note'', JStr ''a@b.co'')])]))
     ''{"name": {"note": "a@b.co"}}''
     = Inr (''{'' @ [CHR 0x0A] @ ''  "name": "[NAME_REDACTED]"'' @ [CHR 0x0A] @ ''}'')\<close>
proof -
  have q: "quote_ascii ''name'' = [CHR 0x22] @ ''name'' @ [CHR 0x22]"
    "quote_ascii ''[NAME_REDACTED]'' = [CHR 0x22] @ ''[NAME_REDACTED]'' @ [CHR 0x22]"
    by (rule quote_ascii_printable; simp add: printable_def code_def)+
  show ?thesis
    using note_key name_key q
    by (simp add: local_guardrail_redact_json_def loads_only_def newline_indent_def numeral_2_eq_2)
qed

end
